theory Spec2Isabelle
  imports Complex_Main
begin

section \<open>Python values\<close>

text \<open>
  A Python \<^verbatim>\<open>str\<close> is a sequence of Unicode code points. A character is modelled by its
  code point, so that \<^verbatim>\<open>len\<close>, slicing and the character classes of \<^verbatim>\<open>re\<close> count what
  Python counts. \<open>py\<close> turns an ASCII literal into such a string.
\<close>

type_synonym pychar = nat
type_synonym pystr = "pychar list"

definition py :: "string \<Rightarrow> pystr" where
  "py s = map of_char s"

text \<open>\<^verbatim>\<open>str(n)\<close> of an integer, as an f-string formats it: decimal digits, a minus sign first.\<close>

fun digits :: "nat \<Rightarrow> pystr" where
  "digits n = (if n < 10 then [48 + n] else digits (n div 10) @ [48 + n mod 10])"

declare digits.simps [simp del]

definition str_int :: "int \<Rightarrow> pystr" where
  "str_int i = (if i < 0 then 45 # digits (nat (- i)) else digits (nat i))"

text \<open>\<^verbatim>\<open>s.startswith(p)\<close>.\<close>

definition startswith :: "pystr \<Rightarrow> pystr \<Rightarrow> bool" where
  "startswith s p = (take (length p) s = p)"

text \<open>
  An exception instance (every one derives from \<^verbatim>\<open>Exception\<close>, as all errors of
  \<^verbatim>\<open>requests\<close>, \<^verbatim>\<open>urllib3\<close> and the file system do). An \<^verbatim>\<open>except C\<close> clause asks
  whether the instance belongs to class \<^verbatim>\<open>C\<close>; the record keeps the answer for each class
  that \<^verbatim>\<open>check_link\<close> names, and what \<^verbatim>\<open>str(e)\<close> returns. The class hierarchy of the
  library is not assumed: an instance may belong to several classes (\<^verbatim>\<open>ConnectTimeout\<close>
  is both a \<^verbatim>\<open>ConnectionError\<close> and a \<^verbatim>\<open>Timeout\<close>).
\<close>

record pyexc =
  is_Timeout :: bool
  is_ConnectionError :: bool
  is_TooManyRedirects :: bool
  is_RequestException :: bool
  str_exc :: pystr

section \<open>The session and the trace of a run\<close>

record response =
  status_code :: int

datatype http_method = HEAD | GET

text \<open>
  What a run does to the outside world, in order: a line printed, a request issued with
  its timeout (redirects are always followed), a pause in seconds.
\<close>

datatype event = Print pystr | Request http_method pystr int | Sleep rat

text \<open>
  The session built by \<^verbatim>\<open>create_session\<close> together with the network behind it: given
  everything the run has done so far, a request returns a response or raises. The retries
  of the adapter happen inside one such call.
\<close>

type_synonym session = "event list \<Rightarrow> http_method \<Rightarrow> pystr \<Rightarrow> int \<Rightarrow> pyexc + response"

definition request ::
  "session \<Rightarrow> http_method \<Rightarrow> pystr \<Rightarrow> int \<Rightarrow> event list \<Rightarrow> (pyexc + response) \<times> event list" where
  "request session m url timeout tr = (session tr m url timeout, tr @ [Request m url timeout])"

definition print :: "pystr \<Rightarrow> event list \<Rightarrow> event list" where
  "print s tr = tr @ [Print s]"

definition sleep :: "rat \<Rightarrow> event list \<Rightarrow> event list" where
  "sleep d tr = tr @ [Sleep d]"

section \<open>Regular expressions\<close>

text \<open>
  The two patterns of \<^verbatim>\<open>extract_links\<close> are sequences of the following items. Each
  item is read the way \<^verbatim>\<open>re\<close> reads it: a character class that must match one character,
  a greedy \<^verbatim>\<open>+\<close> or \<^verbatim>\<open>?\<close> over a character class (the longest repetition first, then
  shorter ones when the rest of the pattern fails), and the negative lookbehind \<^verbatim>\<open>(?<!c)\<close>
  that looks at the character before the current position.
\<close>

datatype item =
    One "pychar \<Rightarrow> bool"
  | OneOrMore "pychar \<Rightarrow> bool"
  | Optional "pychar \<Rightarrow> bool"
  | NotPrecededBy "pychar \<Rightarrow> bool"

definition is_chr :: "char \<Rightarrow> pychar \<Rightarrow> bool" where
  "is_chr c x = (x = of_char c)"

definition not_chr :: "char \<Rightarrow> pychar \<Rightarrow> bool" where
  "not_chr c x = (x \<noteq> of_char c)"

text \<open>
  \<^verbatim>\<open>\s\<close> in a \<^verbatim>\<open>str\<close> pattern: the Unicode whitespace characters, which are the ASCII
  ones (tab to carriage return, the four separators, space) and the code points
  U+0085, U+00A0, U+1680, U+2000 to U+200A, U+2028, U+2029, U+202F, U+205F, U+3000.
\<close>

definition isspace :: "pychar \<Rightarrow> bool" where
  "isspace c = (9 \<le> c \<and> c \<le> 13 \<or> 28 \<le> c \<and> c \<le> 32 \<or> c = 133 \<or> c = 160 \<or> c = 5760
     \<or> 8192 \<le> c \<and> c \<le> 8202 \<or> c = 8232 \<or> c = 8233 \<or> c = 8239 \<or> c = 8287 \<or> c = 12288)"

text \<open>\<open>first_match ns f\<close> is the first success among the attempts \<open>f n\<close>, in the order of \<open>ns\<close>.\<close>

fun first_match :: "nat list \<Rightarrow> (nat \<Rightarrow> 'a option) \<Rightarrow> 'a option" where
  "first_match [] f = None"
| "first_match (n # ns) f = (case f n of Some r \<Rightarrow> Some r | None \<Rightarrow> first_match ns f)"

text \<open>
  \<open>match_here pat prev s\<close> matches the pattern at the start of \<open>s\<close>, where \<open>prev\<close> is the
  character before that position (\<open>None\<close> at the start of the line). A match is the list
  of the texts consumed by the items, one per item; the matched text is their
  concatenation.
\<close>

fun match_here :: "item list \<Rightarrow> pychar option \<Rightarrow> pystr \<Rightarrow> pystr list option" where
  "match_here [] prev s = Some []"
| "match_here (One P # pat) prev s =
     (case s of
        [] \<Rightarrow> None
      | c # cs \<Rightarrow> if P c then map_option ((#) [c]) (match_here pat (Some c) cs) else None)"
| "match_here (OneOrMore P # pat) prev s =
     first_match (rev [1..<Suc (length (takeWhile P s))])
       (\<lambda>n. map_option ((#) (take n s)) (match_here pat (Some (s ! (n - 1))) (drop n s)))"
| "match_here (Optional P # pat) prev s =
     (case (case s of
              [] \<Rightarrow> None
            | c # cs \<Rightarrow> if P c then map_option ((#) [c]) (match_here pat (Some c) cs) else None) of
        Some r \<Rightarrow> Some r
      | None \<Rightarrow> map_option ((#) []) (match_here pat prev s))"
| "match_here (NotPrecededBy P # pat) prev s =
     (if (case prev of None \<Rightarrow> False | Some c \<Rightarrow> P c) then None
      else map_option ((#) []) (match_here pat prev s))"

text \<open>
  \<open>finditer pat i prev s\<close> scans \<open>s\<close> from left to right, as \<^verbatim>\<open>re.finditer\<close> does: where the
  pattern matches, the match is reported with its start index and the scan goes on behind
  it; elsewhere the scan moves one character on. \<open>i\<close> is the index of the start of \<open>s\<close> in
  the line. (Neither pattern of this program matches the empty string; an empty match is
  reported and the scan moves one character on.)
\<close>

function finditer :: "item list \<Rightarrow> nat \<Rightarrow> pychar option \<Rightarrow> pystr \<Rightarrow> (nat \<times> pystr list) list" where
  "finditer pat i prev [] = (case match_here pat prev [] of None \<Rightarrow> [] | Some m \<Rightarrow> [(i, m)])"
| "finditer pat i prev (c # cs) =
     (case match_here pat prev (c # cs) of
        None \<Rightarrow> finditer pat (Suc i) (Some c) cs
      | Some m \<Rightarrow>
          (let n = length (concat m)
           in if n = 0 then (i, m) # finditer pat (Suc i) (Some c) cs
              else (i, m) # finditer pat (i + n) (Some ((c # cs) ! (n - 1))) (drop n (c # cs))))"
  by pat_completeness auto
termination
  by (relation "measure (\<lambda>(pat, i, prev, s). length s)") auto

text \<open>The character before index \<open>k\<close> of \<open>s\<close>, where \<open>prev\<close> stands before \<open>s\<close>.\<close>

definition char_before :: "pychar option \<Rightarrow> pystr \<Rightarrow> nat \<Rightarrow> pychar option" where
  "char_before prev s k = (if k = 0 then prev else Some (s ! (k - 1)))"

text \<open>
  \<^verbatim>\<open>\[([^\]]+)\]\(([^\)]+)\)\<close>: the two groups are the texts of the second and of the fifth
  item.
\<close>

definition md_pattern :: "item list" where
  "md_pattern =
     [One (is_chr CHR ''[''), OneOrMore (not_chr CHR '']''), One (is_chr CHR '']''),
      One (is_chr CHR ''(''), OneOrMore (not_chr CHR '')''), One (is_chr CHR '')'')]"

text \<open>\<^verbatim>\<open>(?<!\()https?://[^\s\)]+\<close>: it has no group.\<close>

definition bare_pattern :: "item list" where
  "bare_pattern =
     [NotPrecededBy (is_chr CHR ''(''),
      One (is_chr CHR ''h''), One (is_chr CHR ''t''), One (is_chr CHR ''t''),
      One (is_chr CHR ''p''), Optional (is_chr CHR ''s''),
      One (is_chr CHR '':''), One (is_chr CHR ''/''), One (is_chr CHR ''/''),
      OneOrMore (\<lambda>c. \<not> isspace c \<and> not_chr CHR '')'' c)]"

text \<open>
  \<^verbatim>\<open>re.findall\<close> returns the matches in the order in which the scan finds them: the tuple
  of the groups when the pattern has two groups, the matched text when it has none.
\<close>

definition md_matches :: "pystr \<Rightarrow> (nat \<times> pystr list) list" where
  "md_matches line = finditer md_pattern 0 None line"

definition bare_matches :: "pystr \<Rightarrow> (nat \<times> pystr list) list" where
  "bare_matches line = finditer bare_pattern 0 None line"

definition findall_md :: "pystr \<Rightarrow> (pystr \<times> pystr) list" where
  "findall_md line = map (\<lambda>(i, m). (m ! 1, m ! 4)) (md_matches line)"

definition findall_bare :: "pystr \<Rightarrow> pystr list" where
  "findall_bare line = map (\<lambda>(i, m). concat m) (bare_matches line)"

section \<open>extract_links\<close>

text \<open>
  The file system: opening a path for reading and iterating over it gives the lines of
  the file, each with its line end, or raises.
\<close>

type_synonym filesystem = "pystr \<Rightarrow> pyexc + pystr list"

text \<open>The two inner loops and the loop over the numbered lines, each appending to \<^verbatim>\<open>links\<close>.\<close>

fun markdown_loop :: "nat \<Rightarrow> (pystr \<times> pystr) list \<Rightarrow> (nat \<times> pystr) list \<Rightarrow> (nat \<times> pystr) list" where
  "markdown_loop line_num [] links = links"
| "markdown_loop line_num ((txt, url) # rest) links =
     markdown_loop line_num rest
       (if startswith url (py ''http://'') \<or> startswith url (py ''https://'')
        then links @ [(line_num, url)] else links)"

fun bare_loop :: "nat \<Rightarrow> pystr list \<Rightarrow> (nat \<times> pystr) list \<Rightarrow> (nat \<times> pystr) list" where
  "bare_loop line_num [] links = links"
| "bare_loop line_num (url # rest) links = bare_loop line_num rest (links @ [(line_num, url)])"

fun line_loop :: "(nat \<times> pystr) list \<Rightarrow> (nat \<times> pystr) list \<Rightarrow> (nat \<times> pystr) list" where
  "line_loop [] links = links"
| "line_loop ((line_num, line) # rest) links =
     line_loop rest
       (bare_loop line_num (findall_bare line) (markdown_loop line_num (findall_md line) links))"

text \<open>\<^verbatim>\<open>enumerate(xs, start=1)\<close>.\<close>

definition enumerate1 :: "'a list \<Rightarrow> (nat \<times> 'a) list" where
  "enumerate1 xs = zip [1..<Suc (length xs)] xs"

definition extract_links :: "filesystem \<Rightarrow> pystr \<Rightarrow> pyexc + (nat \<times> pystr) list" where
  "extract_links fs markdown_file =
     (case fs markdown_file of
        Inl e \<Rightarrow> Inl e
      | Inr lines \<Rightarrow> Inr (line_loop (enumerate1 lines) []))"

text \<open>
  What one line contributes, in the order of the two inner loops: the targets of the
  markdown matches that start with a scheme, then the bare matches.
\<close>

definition line_links :: "nat \<Rightarrow> pystr \<Rightarrow> (nat \<times> pystr) list" where
  "line_links line_num line =
     map (Pair line_num)
       (map snd (filter (\<lambda>(txt, url). startswith url (py ''http://'')
                                      \<or> startswith url (py ''https://''))
                   (findall_md line))
        @ findall_bare line)"

section \<open>check_link\<close>

text \<open>
  The result of \<^verbatim>\<open>check_link\<close> is the tuple \<^verbatim>\<open>(is_valid, status_message, status_code)\<close>.
  \<open>Valid\<close> and \<open>Broken\<close> name its two shapes.
\<close>

type_synonym probe_result = "bool \<times> pystr \<times> int"

definition Valid :: "int \<Rightarrow> probe_result" where
  "Valid code = (True, py ''OK'', code)"

definition Broken :: "pystr \<Rightarrow> int \<Rightarrow> probe_result" where
  "Broken reason code = (False, reason, code)"

text \<open>The body of the \<^verbatim>\<open>try\<close>: \<open>Inl\<close> is an exception raised by one of the two requests.\<close>

definition check_link_try ::
  "session \<Rightarrow> pystr \<Rightarrow> int \<Rightarrow> event list \<Rightarrow> (pyexc + probe_result) \<times> event list" where
  "check_link_try session url timeout tr =
     (case request session HEAD url timeout tr of
        (Inl e, tr1) \<Rightarrow> (Inl e, tr1)
      | (Inr response, tr1) \<Rightarrow>
          (case (if status_code response \<ge> 400
                 then request session GET url timeout tr1
                 else (Inr response, tr1)) of
             (Inl e, tr2) \<Rightarrow> (Inl e, tr2)
           | (Inr response, tr2) \<Rightarrow>
               if status_code response < 400
               then (Inr (True, py ''OK'', status_code response), tr2)
               else (Inr (False, py ''HTTP '' @ str_int (status_code response),
                          status_code response), tr2)))"

text \<open>
  The \<^verbatim>\<open>except\<close> clauses, tried in the order of the source. A result \<open>Inl\<close> of
  \<open>check_link\<close> would be an exception leaving the function.
\<close>

definition check_link ::
  "session \<Rightarrow> pystr \<Rightarrow> int \<Rightarrow> event list \<Rightarrow> (pyexc + probe_result) \<times> event list" where
  "check_link session url timeout tr =
     (case check_link_try session url timeout tr of
        (Inr r, tr') \<Rightarrow> (Inr r, tr')
      | (Inl e, tr') \<Rightarrow>
          if is_Timeout e then (Inr (False, py ''Timeout'', 0), tr')
          else if is_ConnectionError e then (Inr (False, py ''Connection Error'', 0), tr')
          else if is_TooManyRedirects e then (Inr (False, py ''Too Many Redirects'', 0), tr')
          else if is_RequestException e
            then (Inr (False, py ''Request Error: '' @ str_exc e, 0), tr')
          else (Inr (False, py ''Unknown Error: '' @ str_exc e, 0), tr'))"

section \<open>main\<close>

text \<open>
  \<^verbatim>\<open>create_session\<close> builds the session: the retry strategy mounted on both schemes and
  the header it sends. What the session then answers belongs to the network, which is
  handed this configuration.
\<close>

record session_config =
  retry_total :: nat
  retry_backoff_factor :: nat
  retry_status_forcelist :: "int list"
  mounted :: "pystr list"
  headers :: "(pystr \<times> pystr) list"

definition create_session :: session_config where
  "create_session =
     \<lparr>retry_total = 3, retry_backoff_factor = 1,
      retry_status_forcelist = [429, 500, 502, 503, 504],
      mounted = [py ''http://'', py ''https://''],
      headers = [(py ''User-Agent'',
        py ''Mozilla/5.0 (Windows NT 10.0; Win64; x64) AppleWebKit/537.36'')]\<rparr>"

type_synonym network = "session_config \<Rightarrow> session"

text \<open>
  How a run of \<^verbatim>\<open>main\<close> ends: \<^verbatim>\<open>sys.exit(n)\<close> ends the process with exit code \<open>n\<close>; an
  exception that nothing catches ends it with a traceback.
\<close>

datatype outcome = Exit int | Uncaught pyexc

text \<open>The emoji of the messages, by code point.\<close>

definition MAGNIFIER :: pychar where "MAGNIFIER = 128269"
definition CROSS_MARK :: pychar where "CROSS_MARK = 10060"
definition CLIPBOARD :: pychar where "CLIPBOARD = 128203"
definition CHECK_MARK :: pychar where "CHECK_MARK = 9989"
definition BAR_CHART :: pychar where "BAR_CHART = 128202"
definition PARTY_POPPER :: pychar where "PARTY_POPPER = 127881"

text \<open>The messages printed before a probe: the three f-strings and literals of the source.\<close>

definition extracting_message :: pystr where
  "extracting_message = [MAGNIFIER] @ py '' Extracting links from README.md...''"

definition found_message :: "nat \<Rightarrow> pystr" where
  "found_message len_links =
     [CLIPBOARD] @ py '' Found '' @ str_int (int len_links) @ py '' links to check'' @ [10]"

definition checking_message :: "nat \<Rightarrow> nat \<Rightarrow> nat \<Rightarrow> pystr \<Rightarrow> pystr" where
  "checking_message idx len_links line_num url =
     py ''['' @ str_int (int idx) @ py ''/'' @ str_int (int len_links)
     @ py ''] Checking line '' @ str_int (int line_num) @ py '': ''
     @ take 80 url @ (if length url > 80 then py ''...'' else [])"

text \<open>
  The loop over \<^verbatim>\<open>enumerate(links, start=1)\<close>, with the two lists it appends to;
  \<open>len_links\<close> is \<^verbatim>\<open>len(links)\<close>. An exception leaving \<open>check_link\<close> would leave the loop.
\<close>

fun check_loop ::
  "session \<Rightarrow> nat \<Rightarrow> (nat \<times> nat \<times> pystr) list
   \<Rightarrow> (nat \<times> pystr \<times> pystr) list \<Rightarrow> (nat \<times> pystr \<times> int) list \<Rightarrow> event list
   \<Rightarrow> (pyexc + (nat \<times> pystr \<times> pystr) list \<times> (nat \<times> pystr \<times> int) list) \<times> event list" where
  "check_loop session len_links [] broken_links valid_links tr =
     (Inr (broken_links, valid_links), tr)"
| "check_loop session len_links ((idx, line_num, url) # rest) broken_links valid_links tr =
     (let tr1 = print (checking_message idx len_links line_num url) tr
      in case check_link session url 10 tr1 of
           (Inl e, tr2) \<Rightarrow> (Inl e, tr2)
         | (Inr (is_valid, message, code), tr2) \<Rightarrow>
             (let (broken_links', valid_links', tr3) =
                    (if is_valid
                     then (broken_links, valid_links @ [(line_num, url, code)],
                           print (py ''  '' @ [CHECK_MARK] @ py '' '' @ message @ py '' (''
                                  @ str_int code @ py '')'') tr2)
                     else (broken_links @ [(line_num, url, message)], valid_links,
                           print (py ''  '' @ [CROSS_MARK] @ py '' '' @ message) tr2));
                  tr4 = (if idx < len_links then sleep (1 / 2) tr3 else tr3);
                  tr5 = print [] tr4
              in check_loop session len_links rest broken_links' valid_links' tr5))"

text \<open>The loop that prints the broken links.\<close>

fun report_loop :: "(nat \<times> pystr \<times> pystr) list \<Rightarrow> event list \<Rightarrow> event list" where
  "report_loop [] tr = tr"
| "report_loop ((line_num, url, message) # rest) tr =
     report_loop rest
       (print (py ''  Error: '' @ message @ [10])
          (print (py ''Line '' @ str_int (int line_num) @ py '': '' @ url) tr))"

definition main :: "filesystem \<Rightarrow> network \<Rightarrow> outcome \<times> event list" where
  "main fs network =
     (let readme_file = py ''README.md'';
          tr = print extracting_message []
      in case extract_links fs readme_file of
           Inl e \<Rightarrow> (Uncaught e, tr)
         | Inr links \<Rightarrow>
             if links = []
             then (Exit 1, print ([CROSS_MARK] @ py '' No links found in README.md'') tr)
             else
               (let tr = print (found_message (length links)) tr;
                    session = network create_session
                in case check_loop session (length links) (enumerate1 links) [] [] tr of
                     (Inl e, tr) \<Rightarrow> (Uncaught e, tr)
                   | (Inr (broken_links, valid_links), tr) \<Rightarrow>
                       (let tr = print ([10] @ replicate 80 (of_char CHR ''='')) tr;
                            tr = print ([BAR_CHART] @ py '' SUMMARY'') tr;
                            tr = print (replicate 80 (of_char CHR ''='')) tr;
                            tr = print ([CHECK_MARK] @ py '' Valid links: ''
                                        @ str_int (int (length valid_links))) tr;
                            tr = print ([CROSS_MARK] @ py '' Broken links: ''
                                        @ str_int (int (length broken_links))) tr;
                            tr = print ([BAR_CHART] @ py '' Total links checked: ''
                                        @ str_int (int (length links))) tr
                        in if broken_links \<noteq> []
                           then
                             (let tr = print ([10] @ replicate 80 (of_char CHR ''='')) tr;
                                  tr = print ([CROSS_MARK] @ py '' BROKEN LINKS'') tr;
                                  tr = print (replicate 80 (of_char CHR ''='')) tr
                              in (Exit 1, report_loop broken_links tr))
                           else
                             (Exit 0, print ([10, PARTY_POPPER] @ py '' All links are valid!'')
                                        tr))))"

text \<open>
  The results that \<open>check_link\<close> returns during the loop, in order: each call sees the
  trace as the loop has left it. \<open>probes\<close> are those of a whole run over \<open>links\<close>.
\<close>

definition is_valid :: "probe_result \<Rightarrow> bool" where
  "is_valid r = fst r"

fun probe_results ::
  "session \<Rightarrow> nat \<Rightarrow> (nat \<times> nat \<times> pystr) list \<Rightarrow> event list \<Rightarrow> probe_result list" where
  "probe_results session len_links [] tr = []"
| "probe_results session len_links ((idx, line_num, url) # rest) tr =
     (case fst (check_link session url 10 (print (checking_message idx len_links line_num url) tr)) of
        Inl e \<Rightarrow> []
      | Inr r \<Rightarrow>
          r # probe_results session len_links rest
                (snd (check_loop session len_links [(idx, line_num, url)] [] [] tr)))"

definition probes :: "network \<Rightarrow> (nat \<times> pystr) list \<Rightarrow> probe_result list" where
  "probes network links =
     probe_results (network create_session) (length links) (enumerate1 links)
       (print (found_message (length links)) (print extracting_message []))"

section \<open>Example inputs\<close>

text \<open>
  Exceptions for the examples: a read timeout, a refused connection, a redirect loop, an
  invalid URL (a request-layer failure of no more specific class) and a failure from
  outside the request layer.
\<close>

definition exc_ReadTimeout :: pyexc where
  "exc_ReadTimeout = \<lparr>is_Timeout = True, is_ConnectionError = False,
     is_TooManyRedirects = False, is_RequestException = True, str_exc = py ''timed out''\<rparr>"

definition exc_ConnectionError :: pyexc where
  "exc_ConnectionError = \<lparr>is_Timeout = False, is_ConnectionError = True,
     is_TooManyRedirects = False, is_RequestException = True, str_exc = py ''refused''\<rparr>"

definition exc_TooManyRedirects :: pyexc where
  "exc_TooManyRedirects = \<lparr>is_Timeout = False, is_ConnectionError = False,
     is_TooManyRedirects = True, is_RequestException = True, str_exc = py ''30 redirects''\<rparr>"

definition exc_InvalidURL :: pyexc where
  "exc_InvalidURL = \<lparr>is_Timeout = False, is_ConnectionError = False,
     is_TooManyRedirects = False, is_RequestException = True, str_exc = py ''bad url''\<rparr>"

definition exc_ValueError :: pyexc where
  "exc_ValueError = \<lparr>is_Timeout = False, is_ConnectionError = False,
     is_TooManyRedirects = False, is_RequestException = False, str_exc = py ''bad value''\<rparr>"

text \<open>
  Sessions for the examples: one that answers every request with the same status, one that
  answers \<^verbatim>\<open>HEAD\<close> and \<^verbatim>\<open>GET\<close> with a status each, one that raises on every request.
\<close>

definition answering :: "int \<Rightarrow> int \<Rightarrow> session" where
  "answering h g = (\<lambda>tr m url timeout.
     Inr \<lparr>status_code = (case m of HEAD \<Rightarrow> h | GET \<Rightarrow> g)\<rparr>)"

definition raising :: "pyexc \<Rightarrow> session" where
  "raising e = (\<lambda>tr m url timeout. Inl e)"

text \<open>
  File systems for the examples: one where \<^verbatim>\<open>README.md\<close> has the given lines and no other
  file exists, and one where \<^verbatim>\<open>README.md\<close> is missing.
\<close>

definition exc_FileNotFound :: pyexc where
  "exc_FileNotFound = \<lparr>is_Timeout = False, is_ConnectionError = False,
     is_TooManyRedirects = False, is_RequestException = False,
     str_exc = py ''No such file or directory''\<rparr>"

definition readme :: "pystr list \<Rightarrow> filesystem" where
  "readme lines = (\<lambda>path. if path = py ''README.md'' then Inr lines else Inl exc_FileNotFound)"

definition no_readme :: filesystem where
  "no_readme = (\<lambda>path. Inl exc_FileNotFound)"

definition mixed_doc :: "pystr list" where
  "mixed_doc = [py ''https://a.example [b](https://b.example)'' @ [10]]"

definition sample_doc :: "pystr list" where
  "sample_doc =
     [py ''# Links'' @ [10],
      py ''See [docs](https://good.example/page) or https://good.example/page'' @ [10],
      py ''Again: https://good.example/page'' @ [10]]"

definition nested_doc :: "pystr list" where
  "nested_doc = [py ''[notes](todo.md [docs](https://docs.example/x)'' @ [10]]"

definition archive_doc :: "pystr list" where
  "archive_doc = [py ''https://web.archive.org/web/2020/https://example.com/'' @ [10]]"

definition scheme_only_doc :: "pystr list" where
  "scheme_only_doc = [py ''see http:// for details'' @ [10]]"

definition empty_text_doc :: "pystr list" where
  "empty_text_doc = [py ''[](https://example.com)'' @ [10]]"

definition empty_target_doc :: "pystr list" where
  "empty_target_doc = [py ''[text]()'' @ [10]]"

definition good_doc :: "pystr list" where
  "good_doc = [py ''See [docs](https://good.example/page).'' @ [10]]"

definition dead_doc :: "pystr list" where
  "dead_doc = [py ''Dead: https://dead.example/page'' @ [10]]"

definition plain_doc :: "pystr list" where
  "plain_doc = [py ''# Title'' @ [10], py ''nothing to check here'' @ [10]]"

section \<open>Properties of check_link\<close>

lemma str_int_400: "str_int 400 = py ''400''"
  by (simp add: str_int_def py_def digits.simps [of 400] digits.simps [of 40] digits.simps [of 4])

lemma check_link_returns: "\<exists>r. fst (check_link session url timeout tr) = Inr r"
  by (auto simp: check_link_def split: prod.splits sum.splits)

text \<open>
  C1. The response used for the verdict is the one to \<^verbatim>\<open>HEAD\<close> when its status is below
  400, and the one to the \<^verbatim>\<open>GET\<close> that follows otherwise. When that response has a status
  below 400, the result is \<open>Valid\<close> with that status; when it is 400 or more, the result is
  \<open>Broken\<close> with the reason \<^verbatim>\<open>HTTP <code>\<close> and that status. In particular a final
  status 399 gives \<open>Valid 399\<close> and a final status 400 gives \<open>Broken\<close> with reason
  \<^verbatim>\<open>HTTP 400\<close>.
\<close>

theorem check_link_classifies:
  "(session tr HEAD url timeout = Inr h \<and> status_code h < 400
      \<longrightarrow> fst (check_link session url timeout tr) = Inr (Valid (status_code h)))
   \<and> (session tr HEAD url timeout = Inr h \<and> 400 \<le> status_code h
       \<and> session (tr @ [Request HEAD url timeout]) GET url timeout = Inr g
      \<longrightarrow> (status_code g < 400
            \<longrightarrow> fst (check_link session url timeout tr) = Inr (Valid (status_code g)))
        \<and> (400 \<le> status_code g
            \<longrightarrow> fst (check_link session url timeout tr)
                  = Inr (Broken (py ''HTTP '' @ str_int (status_code g)) (status_code g)))
        \<and> (status_code g = 399
            \<longrightarrow> fst (check_link session url timeout tr) = Inr (Valid 399))
        \<and> (status_code g = 400
            \<longrightarrow> fst (check_link session url timeout tr) = Inr (Broken (py ''HTTP 400'') 400)))
   \<and> (session tr HEAD url timeout = Inr h \<and> status_code h = 399
      \<longrightarrow> fst (check_link session url timeout tr) = Inr (Valid 399))"
  by (auto simp: check_link_def check_link_try_def request_def
      Valid_def Broken_def str_int_400 py_def)

theorem check_link_classifies_witness:
  "fst (check_link (answering 399 200) (py ''http://a.example'') 10 []) = Inr (Valid 399)
   \<and> fst (check_link (answering 200 200) (py ''http://a.example'') 10 []) = Inr (Valid 200)
   \<and> fst (check_link (answering 405 399) (py ''http://a.example'') 10 []) = Inr (Valid 399)
   \<and> fst (check_link (answering 405 400) (py ''http://a.example'') 10 [])
       = Inr (Broken (py ''HTTP 400'') 400)"
  using check_link_classifies [of "answering 399 200" "[]" "py ''http://a.example''" 10
      "\<lparr>status_code = 399\<rparr>"]
    check_link_classifies [of "answering 200 200" "[]" "py ''http://a.example''" 10
      "\<lparr>status_code = 200\<rparr>"]
    check_link_classifies [of "answering 405 399" "[]" "py ''http://a.example''" 10
      "\<lparr>status_code = 405\<rparr>" "\<lparr>status_code = 399\<rparr>"]
    check_link_classifies [of "answering 405 400" "[]" "py ''http://a.example''" 10
      "\<lparr>status_code = 405\<rparr>" "\<lparr>status_code = 400\<rparr>"]
  by (simp add: answering_def str_int_400 py_def)

text \<open>
  C2. No exception leaves \<open>check_link\<close>: whatever the session does, the result is a
  tuple. When a request raises \<open>e\<close> (the \<^verbatim>\<open>HEAD\<close>, or the \<^verbatim>\<open>GET\<close> issued after a
  \<^verbatim>\<open>HEAD\<close> answered with 400 or more), the result is \<open>Broken\<close> with status code 0 and
  the reason of the first clause that \<open>e\<close> belongs to: \<^verbatim>\<open>Timeout\<close> for a timeout,
  \<^verbatim>\<open>Connection Error\<close> for a connection failure, \<^verbatim>\<open>Too Many Redirects\<close> for an excessive
  redirect chain, \<^verbatim>\<open>Request Error: <detail>\<close> for any other failure of the request layer,
  and \<^verbatim>\<open>Unknown Error: <detail>\<close> for any other failure.
\<close>

theorem check_link_never_raises:
  "(\<exists>r. fst (check_link session url timeout tr) = Inr r)
   \<and> (session tr HEAD url timeout = Inl e
       \<or> (\<exists>h. session tr HEAD url timeout = Inr h \<and> 400 \<le> status_code h
              \<and> session (tr @ [Request HEAD url timeout]) GET url timeout = Inl e)
      \<longrightarrow> (is_Timeout e
            \<longrightarrow> fst (check_link session url timeout tr) = Inr (Broken (py ''Timeout'') 0))
        \<and> (\<not> is_Timeout e \<and> is_ConnectionError e
            \<longrightarrow> fst (check_link session url timeout tr)
                  = Inr (Broken (py ''Connection Error'') 0))
        \<and> (\<not> is_Timeout e \<and> \<not> is_ConnectionError e \<and> is_TooManyRedirects e
            \<longrightarrow> fst (check_link session url timeout tr)
                  = Inr (Broken (py ''Too Many Redirects'') 0))
        \<and> (\<not> is_Timeout e \<and> \<not> is_ConnectionError e \<and> \<not> is_TooManyRedirects e
             \<and> is_RequestException e
            \<longrightarrow> fst (check_link session url timeout tr)
                  = Inr (Broken (py ''Request Error: '' @ str_exc e) 0))
        \<and> (\<not> is_Timeout e \<and> \<not> is_ConnectionError e \<and> \<not> is_TooManyRedirects e
             \<and> \<not> is_RequestException e
            \<longrightarrow> fst (check_link session url timeout tr)
                  = Inr (Broken (py ''Unknown Error: '' @ str_exc e) 0)))"
  by (auto simp: check_link_def check_link_try_def request_def Broken_def
      split: sum.splits)

theorem check_link_never_raises_witness:
  "fst (check_link (raising exc_ReadTimeout) (py ''http://a.example'') 10 [])
     = Inr (Broken (py ''Timeout'') 0)
   \<and> fst (check_link (raising exc_ConnectionError) (py ''http://a.example'') 10 [])
     = Inr (Broken (py ''Connection Error'') 0)
   \<and> fst (check_link (raising exc_TooManyRedirects) (py ''http://a.example'') 10 [])
     = Inr (Broken (py ''Too Many Redirects'') 0)
   \<and> fst (check_link (raising exc_InvalidURL) (py ''http://a.example'') 10 [])
     = Inr (Broken (py ''Request Error: bad url'') 0)
   \<and> fst (check_link (raising exc_ValueError) (py ''http://a.example'') 10 [])
     = Inr (Broken (py ''Unknown Error: bad value'') 0)"
  using check_link_never_raises [of "raising exc_ReadTimeout" "py ''http://a.example''" 10 "[]"
      exc_ReadTimeout]
    check_link_never_raises [of "raising exc_ConnectionError" "py ''http://a.example''" 10 "[]"
      exc_ConnectionError]
    check_link_never_raises [of "raising exc_TooManyRedirects" "py ''http://a.example''" 10 "[]"
      exc_TooManyRedirects]
    check_link_never_raises [of "raising exc_InvalidURL" "py ''http://a.example''" 10 "[]"
      exc_InvalidURL]
    check_link_never_raises [of "raising exc_ValueError" "py ''http://a.example''" 10 "[]"
      exc_ValueError]
  by (simp add: raising_def exc_ReadTimeout_def exc_ConnectionError_def
      exc_TooManyRedirects_def exc_InvalidURL_def exc_ValueError_def py_def)

text \<open>
  C10. When the \<^verbatim>\<open>HEAD\<close> request is answered with a status below 400, \<open>check_link\<close>
  issues that one request and nothing else, and returns \<open>Valid\<close> with the status of the
  \<^verbatim>\<open>HEAD\<close> response. A \<^verbatim>\<open>GET\<close> request is issued only when the \<^verbatim>\<open>HEAD\<close> request was
  answered with a status of 400 or more.
\<close>

theorem check_link_get_only_after_failed_head:
  "(session tr HEAD url timeout = Inr h \<and> status_code h < 400
      \<longrightarrow> check_link session url timeout tr
            = (Inr (Valid (status_code h)), tr @ [Request HEAD url timeout]))
   \<and> ((\<exists>u t. Request GET u t \<in> set (drop (length tr) (snd (check_link session url timeout tr))))
      \<longrightarrow> (\<exists>h'. session tr HEAD url timeout = Inr h' \<and> 400 \<le> status_code h'))"
  by (auto simp: check_link_def check_link_try_def request_def Valid_def
      split: sum.splits if_splits)

theorem check_link_get_only_after_failed_head_witness:
  "check_link (answering 200 404) (py ''http://a.example'') 10 []
     = (Inr (Valid 200), [Request HEAD (py ''http://a.example'') 10])
   \<and> Request GET (py ''http://a.example'') 10
       \<in> set (snd (check_link (answering 405 200) (py ''http://a.example'') 10 []))
   \<and> (\<exists>h'. answering 405 200 [] HEAD (py ''http://a.example'') 10 = Inr h'
         \<and> 400 \<le> status_code h')"
proof -
  have get: "Request GET (py ''http://a.example'') 10
      \<in> set (drop (length []) (snd (check_link (answering 405 200) (py ''http://a.example'') 10 [])))"
    by (simp add: check_link_def check_link_try_def request_def answering_def)
  show ?thesis
    using get
      check_link_get_only_after_failed_head [of "answering 200 404" "[]"
        "py ''http://a.example''" 10 "\<lparr>status_code = 200\<rparr>"]
      check_link_get_only_after_failed_head [of "answering 405 200" "[]"
        "py ''http://a.example''" 10 "\<lparr>status_code = 405\<rparr>"]
    by (auto simp: answering_def)
qed

section \<open>Evaluating the examples\<close>

lemmas pattern_defs = findall_md_def md_matches_def md_pattern_def findall_bare_def
  bare_matches_def bare_pattern_def is_chr_def not_chr_def isspace_def startswith_def py_def

lemma extract_links_good_doc:
  "extract_links (readme good_doc) (py ''README.md'')
     = Inr [(1, py ''https://good.example/page'')]"
  by (simp add: extract_links_def readme_def good_doc_def enumerate1_def pattern_defs)

lemma extract_links_dead_doc:
  "extract_links (readme dead_doc) (py ''README.md'')
     = Inr [(1, py ''https://dead.example/page'')]"
  by (simp add: extract_links_def readme_def dead_doc_def enumerate1_def pattern_defs)

lemma extract_links_plain_doc:
  "extract_links (readme plain_doc) (py ''README.md'') = Inr []"
  by (simp add: extract_links_def readme_def plain_doc_def enumerate1_def pattern_defs)

lemma extract_links_sample_doc:
  "extract_links (readme sample_doc) (py ''README.md'')
     = Inr [(2, py ''https://good.example/page''), (2, py ''https://good.example/page''),
            (3, py ''https://good.example/page'')]"
  by (simp add: extract_links_def readme_def sample_doc_def enumerate1_def pattern_defs)

lemma md_matches_mixed: "map fst (md_matches (hd mixed_doc)) = [18]"
  by (simp add: mixed_doc_def pattern_defs)

lemma bare_matches_mixed: "map fst (bare_matches (hd mixed_doc)) = [0]"
  by (simp add: mixed_doc_def pattern_defs)

lemma extract_links_mixed_doc:
  "extract_links (readme mixed_doc) (py ''README.md'')
     = Inr [(1, py ''https://b.example''), (1, py ''https://a.example'')]"
  by (simp add: extract_links_def readme_def mixed_doc_def enumerate1_def pattern_defs)

lemma extract_links_nested_doc:
  "extract_links (readme nested_doc) (py ''README.md'') = Inr []"
  by (simp add: extract_links_def readme_def nested_doc_def enumerate1_def pattern_defs)

lemma extract_links_archive_doc:
  "extract_links (readme archive_doc) (py ''README.md'')
     = Inr [(1, py ''https://web.archive.org/web/2020/https://example.com/'')]"
  by (simp add: extract_links_def readme_def archive_doc_def enumerate1_def pattern_defs)

lemma extract_links_scheme_only_doc:
  "extract_links (readme scheme_only_doc) (py ''README.md'') = Inr []"
  by (simp add: extract_links_def readme_def scheme_only_doc_def enumerate1_def pattern_defs)

lemma extract_links_empty_text_doc:
  "extract_links (readme empty_text_doc) (py ''README.md'') = Inr []"
  by (simp add: extract_links_def readme_def empty_text_doc_def enumerate1_def pattern_defs)

lemma extract_links_empty_target_doc:
  "extract_links (readme empty_target_doc) (py ''README.md'') = Inr []"
  by (simp add: extract_links_def readme_def empty_target_doc_def enumerate1_def pattern_defs)

section \<open>Properties of main\<close>

lemma check_loop_probe_results:
  "\<exists>B V tr'. check_loop session len_links elinks broken_links valid_links tr
       = (Inr (broken_links @ B, valid_links @ V), tr')
     \<and> (B = [] \<longleftrightarrow> (\<forall>r \<in> set (probe_results session len_links elinks tr). is_valid r))
     \<and> length (probe_results session len_links elinks tr) = length elinks"
proof (induction elinks arbitrary: broken_links valid_links tr)
  case Nil
  show ?case by simp
next
  case (Cons x rest)
  obtain idx line_num url where x: "x = (idx, line_num, url)"
    by (cases x) auto
  let ?tr1 = "print (checking_message idx len_links line_num url) tr"
  obtain v message code tr2
    where cl: "check_link session url 10 ?tr1 = (Inr (v, message, code), tr2)"
    using check_link_returns [of session url 10 ?tr1]
    by (cases "check_link session url 10 ?tr1") auto
  define tr5 where "tr5 = snd (check_loop session len_links [x] [] [] tr)"
  define broken' where
    "broken' = (if v then broken_links else broken_links @ [(line_num, url, message)])"
  define valid' where
    "valid' = (if v then valid_links @ [(line_num, url, code)] else valid_links)"
  have loop: "check_loop session len_links (x # rest) broken_links valid_links tr
      = check_loop session len_links rest broken' valid' tr5"
    using cl by (simp add: x tr5_def broken'_def valid'_def Let_def)
  have results: "probe_results session len_links (x # rest) tr
      = (v, message, code) # probe_results session len_links rest tr5"
    using cl by (simp add: x tr5_def)
  from Cons.IH [of broken' valid' tr5] obtain B V tr'
    where ih: "check_loop session len_links rest broken' valid' tr5
        = (Inr (broken' @ B, valid' @ V), tr')"
      "B = [] \<longleftrightarrow> (\<forall>r \<in> set (probe_results session len_links rest tr5). is_valid r)"
      "length (probe_results session len_links rest tr5) = length rest"
    by blast
  show ?case
  proof (cases v)
    case True
    have "check_loop session len_links (x # rest) broken_links valid_links tr
        = (Inr (broken_links @ B, valid_links @ ((line_num, url, code) # V)), tr')"
      using loop ih(1) True by (simp add: broken'_def valid'_def)
    moreover have "B = [] \<longleftrightarrow>
        (\<forall>r \<in> set (probe_results session len_links (x # rest) tr). is_valid r)"
      using ih(2) True by (simp add: results is_valid_def)
    moreover have "length (probe_results session len_links (x # rest) tr) = length (x # rest)"
      using ih(3) by (simp add: results)
    ultimately show ?thesis by blast
  next
    case False
    have "check_loop session len_links (x # rest) broken_links valid_links tr
        = (Inr (broken_links @ ((line_num, url, message) # B), valid_links @ V), tr')"
      using loop ih(1) False by (simp add: broken'_def valid'_def)
    moreover have "(line_num, url, message) # B = [] \<longleftrightarrow>
        (\<forall>r \<in> set (probe_results session len_links (x # rest) tr). is_valid r)"
      using False by (simp add: results is_valid_def)
    moreover have "length (probe_results session len_links (x # rest) tr) = length (x # rest)"
      using ih(3) by (simp add: results)
    ultimately show ?thesis by blast
  qed
qed

lemma length_enumerate1: "length (enumerate1 xs) = length xs"
  by (simp add: enumerate1_def del: upt_Suc)

lemma length_probes: "length (probes network links) = length links"
proof -
  let ?tr = "print (found_message (length links)) (print extracting_message [])"
  from check_loop_probe_results [of "network create_session" "length links"
      "enumerate1 links" "[]" "[]" ?tr]
  have "length (probe_results (network create_session) (length links) (enumerate1 links) ?tr)
      = length (enumerate1 links)"
    by blast
  then show ?thesis
    by (simp add: probes_def length_enumerate1)
qed

lemma main_exit:
  assumes "extract_links fs (py ''README.md'') = Inr links"
  shows "fst (main fs network)
     = Exit (if links \<noteq> [] \<and> (\<forall>r \<in> set (probes network links). is_valid r) then 0 else 1)"
proof (cases "links = []")
  case True
  then show ?thesis using assms by (simp add: main_def)
next
  case False
  let ?tr = "print (found_message (length links)) (print extracting_message [])"
  obtain B V tr' where loop:
    "check_loop (network create_session) (length links) (enumerate1 links) [] [] ?tr
       = (Inr ([] @ B, [] @ V), tr')"
    "B = [] \<longleftrightarrow> (\<forall>r \<in> set (probes network links). is_valid r)"
    using check_loop_probe_results [of "network create_session" "length links"
        "enumerate1 links" "[]" "[]" ?tr]
    unfolding probes_def by blast
  show ?thesis
    using assms False loop by (simp add: main_def Let_def)
qed

lemma main_uncaught:
  assumes "extract_links fs (py ''README.md'') = Inl e"
  shows "fst (main fs network) = Uncaught e"
  using assms by (simp add: main_def)

text \<open>
  C3. A run ends with exit code 0 exactly when links were extracted, there is at least one,
  and every probe of the run (one per link) was classified valid. It ends with exit code
  1 whenever the extraction gives no link, and whenever some probe was classified broken.
\<close>

theorem main_exit_code:
  "(fst (main fs network) = Exit 0
      \<longleftrightarrow> (\<exists>links. extract_links fs (py ''README.md'') = Inr links \<and> links \<noteq> []
             \<and> (\<forall>r \<in> set (probes network links). is_valid r)))
   \<and> (\<forall>links. extract_links fs (py ''README.md'') = Inr links
         \<and> (links = [] \<or> (\<exists>r \<in> set (probes network links). \<not> is_valid r))
        \<longrightarrow> fst (main fs network) = Exit 1)
   \<and> (\<forall>links. length (probes network links) = length links)"
proof (cases "extract_links fs (py ''README.md'')")
  case (Inl e)
  then show ?thesis
    using main_uncaught [OF Inl, of network] by (simp add: length_probes)
next
  case (Inr links)
  then show ?thesis
    using main_exit [OF Inr, of network] by (auto simp: length_probes)
qed

theorem main_exit_code_witness:
  "fst (main (readme good_doc) (\<lambda>config. answering 200 200)) = Exit 0
   \<and> fst (main (readme dead_doc) (\<lambda>config. answering 404 404)) = Exit 1
   \<and> fst (main (readme plain_doc) (\<lambda>config. answering 200 200)) = Exit 1
   \<and> probes (\<lambda>config. answering 404 404) [(1, py ''https://dead.example/page'')]
       = [Broken (py ''HTTP 404'') 404]"
proof -
  have good: "probes (\<lambda>config. answering 200 200) [(1, py ''https://good.example/page'')]
      = [Valid 200]"
    by (simp add: probes_def enumerate1_def check_link_def check_link_try_def request_def
        answering_def Valid_def)
  have str_404: "str_int 404 = py ''404''"
    by (simp add: str_int_def py_def digits.simps [of 404] digits.simps [of 40]
        digits.simps [of 4])
  have dead: "probes (\<lambda>config. answering 404 404) [(1, py ''https://dead.example/page'')]
      = [Broken (py ''HTTP 404'') 404]"
    by (simp add: probes_def enumerate1_def check_link_def check_link_try_def request_def
        answering_def Broken_def str_404) (simp add: py_def)
  show ?thesis
    using main_exit_code [of "readme good_doc" "\<lambda>config. answering 200 200"]
      main_exit_code [of "readme dead_doc" "\<lambda>config. answering 404 404"]
      main_exit_code [of "readme plain_doc" "\<lambda>config. answering 200 200"]
      good dead
    by (simp add: extract_links_good_doc extract_links_dead_doc extract_links_plain_doc
        is_valid_def Valid_def Broken_def)
qed

text \<open>
  C4. When the extraction gives no link, \<open>main\<close> prints the message that no links were
  found and ends with exit code 1 at once: the trace of the run is the two printed lines,
  and no request is issued.
\<close>

theorem main_no_links_no_probe:
  "extract_links fs (py ''README.md'') = Inr []
   \<Longrightarrow> main fs network
         = (Exit 1, [Print extracting_message,
                     Print ([CROSS_MARK] @ py '' No links found in README.md'')])
       \<and> (\<forall>m url timeout. Request m url timeout \<notin> set (snd (main fs network)))"
  by (simp add: main_def print_def)

theorem main_no_links_no_probe_witness:
  "extract_links (readme plain_doc) (py ''README.md'') = Inr []
   \<and> main (readme plain_doc) (\<lambda>config. answering 200 200)
       = (Exit 1, [Print extracting_message,
                   Print ([CROSS_MARK] @ py '' No links found in README.md'')])
   \<and> (\<forall>m url timeout.
         Request m url timeout \<notin> set (snd (main (readme plain_doc) (\<lambda>config. answering 200 200))))"
  using main_no_links_no_probe [OF extract_links_plain_doc, of "\<lambda>config. answering 200 200"]
    extract_links_plain_doc
  by simp

section \<open>Properties of the matcher and of the scan\<close>

lemma first_match_None: "(\<And>n. n \<in> set ns \<Longrightarrow> f n = None) \<Longrightarrow> first_match ns f = None"
  by (induction ns) auto

lemma first_match_Some: "first_match ns f = Some r \<Longrightarrow> \<exists>n \<in> set ns. f n = Some r"
  by (induction ns) (auto split: option.splits)

lemma first_match_greedy:
  assumes "\<And>k. 1 \<le> k \<Longrightarrow> k < n \<Longrightarrow> f k = None"
  shows "first_match (rev [1..<Suc n]) f = (if n = 0 then None else f n)"
proof (cases n)
  case 0
  then show ?thesis by simp
next
  case (Suc n')
  have none: "first_match (rev [1..<Suc n']) f = None"
  proof (rule first_match_None)
    fix k assume "k \<in> set (rev [1..<Suc n'])"
    then have "1 \<le> k" "k < n" using Suc by (simp_all only: set_rev set_upt atLeastLessThan_iff)
    then show "f k = None" by (rule assms)
  qed
  have "rev [1..<Suc n] = n # rev [1..<Suc n']"
    unfolding Suc by (simp only: upt_Suc_append [of 1 "Suc n'"] rev_append rev.simps append.simps le_add1 plus_1_eq_Suc Suc_le_mono le0) 
  then show ?thesis
    using none Suc by (simp del: upt_Suc split: option.splits)
qed

lemma match_here_prefix:
  "match_here pat prev s = Some m \<Longrightarrow> take (length (concat m)) s = concat m"
proof (induction pat prev s arbitrary: m rule: match_here.induct)
  case (1 prev s)
  then show ?case by simp
next
  case (2 P pat prev s)
  then show ?case by (auto split: list.splits if_splits)
next
  case (3 P pat prev s)
  let ?f = "\<lambda>n. map_option ((#) (take n s)) (match_here pat (Some (s ! (n - 1))) (drop n s))"
  from "3.prems" have "first_match (rev [1..<Suc (length (takeWhile P s))]) ?f = Some m"
    by (simp only: match_here.simps)
  then obtain n where n: "n \<in> set (rev [1..<Suc (length (takeWhile P s))])"
    and fn: "?f n = Some m"
    by (blast dest: first_match_Some)
  from fn obtain m' where m': "match_here pat (Some (s ! (n - 1))) (drop n s) = Some m'"
    and m: "m = take n s # m'"
    by auto
  have "n < Suc (length (takeWhile P s))"
    using n by (simp only: set_rev set_upt atLeastLessThan_iff)
  then have le: "n \<le> length s"
    using length_takeWhile_le [of P s] by simp
  have "take (length (concat m')) (drop n s) = concat m'"
    using "3.IH" m' by blast
  then show ?case
    using le by (simp add: m take_add min_absorb2)
next
  case (4 P pat prev s)
  then show ?case by (auto split: list.splits if_splits option.splits)
next
  case (5 P pat prev s)
  then show ?case by (auto split: if_splits)
qed

lemma match_here_OneOrMore_One:
  assumes "\<And>c. Q c \<Longrightarrow> \<not> P c"
  shows "match_here (OneOrMore P # One Q # pat) prev s =
    (if takeWhile P s = [] then None
     else case dropWhile P s of
            [] \<Rightarrow> None
          | c # cs \<Rightarrow> if Q c
              then map_option (\<lambda>r. takeWhile P s # [c] # r) (match_here pat (Some c) cs)
              else None)"
proof -
  let ?n = "length (takeWhile P s)"
  let ?f = "\<lambda>n. map_option ((#) (take n s))
      (match_here (One Q # pat) (Some (s ! (n - 1))) (drop n s))"
  have shorter: "?f k = None" if "1 \<le> k" "k < ?n" for k
  proof -
    have "k < length s" using that length_takeWhile_le [of P s] by simp
    then have d: "drop k s = s ! k # drop (Suc k) s"
      by (simp add: Cons_nth_drop_Suc)
    have "takeWhile P s ! k \<in> set (takeWhile P s)"
      using that(2) by simp
    then have "P (takeWhile P s ! k)" by (rule set_takeWhileD [THEN conjunct2])
    then have "P (s ! k)" using that(2) by (simp add: takeWhile_nth)
    then have "\<not> Q (s ! k)" using assms by blast
    then show ?thesis by (simp add: d)
  qed
  have "match_here (OneOrMore P # One Q # pat) prev s = first_match (rev [1..<Suc ?n]) ?f"
    by (simp only: match_here.simps)
  also have "\<dots> = (if ?n = 0 then None else ?f ?n)"
    by (rule first_match_greedy) (rule shorter)
  finally have eq: "match_here (OneOrMore P # One Q # pat) prev s
      = (if ?n = 0 then None else ?f ?n)" .
  have td: "take ?n s = takeWhile P s" "drop ?n s = dropWhile P s"
    by (simp_all add: takeWhile_eq_take [symmetric] dropWhile_eq_drop [symmetric])
  show ?thesis
  proof (cases "takeWhile P s = []")
    case True
    then show ?thesis unfolding eq by simp
  next
    case False
    have "?f ?n = map_option ((#) (takeWhile P s))
        (match_here (One Q # pat) (Some (s ! (?n - 1))) (dropWhile P s))"
      by (simp only: td)
    also have "\<dots> = (case dropWhile P s of
            [] \<Rightarrow> None
          | c # cs \<Rightarrow> if Q c
              then map_option (\<lambda>r. takeWhile P s # [c] # r) (match_here pat (Some c) cs)
              else None)"
    proof (cases "dropWhile P s")
      case Nil
      show ?thesis unfolding Nil by simp
    next
      case (Cons c cs)
      show ?thesis unfolding Cons by (simp add: option.map_comp comp_def)
    qed
    finally have "?f ?n = (case dropWhile P s of
            [] \<Rightarrow> None
          | c # cs \<Rightarrow> if Q c
              then map_option (\<lambda>r. takeWhile P s # [c] # r) (match_here pat (Some c) cs)
              else None)" .
    then show ?thesis unfolding eq using False by simp
  qed
qed

lemma match_here_OneOrMore_end:
  "match_here [OneOrMore P] prev s =
    (if takeWhile P s = [] then None else Some [takeWhile P s])"
proof -
  let ?n = "length (takeWhile P s)"
  let ?f = "\<lambda>n. map_option ((#) (take n s)) (match_here [] (Some (s ! (n - 1))) (drop n s))"
  have "match_here [OneOrMore P] prev s = first_match (rev [1..<Suc ?n]) ?f"
    by (simp only: match_here.simps)
  also have "\<dots> = (case ?n of 0 \<Rightarrow> None | Suc k \<Rightarrow> ?f ?n)"
  proof (cases ?n)
    case 0
    then show ?thesis by simp
  next
    case (Suc k)
    have "rev [1..<Suc (Suc k)] = Suc k # rev [1..<Suc k]"
      by (simp only: upt_Suc_append [of 1 "Suc k"] rev_append rev.simps append.simps
          plus_1_eq_Suc Suc_le_mono le0)
    then show ?thesis
      using Suc by (simp del: upt_Suc)
  qed
  finally have eq: "match_here [OneOrMore P] prev s = (case ?n of 0 \<Rightarrow> None | Suc k \<Rightarrow> ?f ?n)" .
  have td: "take ?n s = takeWhile P s"
    by (simp add: takeWhile_eq_take [symmetric])
  show ?thesis
    unfolding eq using td by (cases "takeWhile P s") simp_all
qed


lemma char_before_Cons: "char_before (Some c) cs k = char_before prev (c # cs) (Suc k)"
  by (cases k) (simp_all add: char_before_def)

lemma char_before_drop:
  "0 < n \<Longrightarrow> n \<le> length s \<Longrightarrow>
   char_before (Some (s ! (n - 1))) (drop n s) k = char_before prev s (n + k)"
  by (cases k) (simp_all add: char_before_def)

lemma match_here_length:
  assumes "match_here pat prev s = Some m"
  shows "length (concat m) \<le> length s"
proof -
  have "length (take (length (concat m)) s) = length (concat m)"
    using match_here_prefix [OF assms] by simp
  then show ?thesis by simp
qed

lemma finditer_sound:
  "(p, m) \<in> set (finditer pat i prev s) \<Longrightarrow>
   i \<le> p \<and> p - i \<le> length s
   \<and> match_here pat (char_before prev s (p - i)) (drop (p - i) s) = Some m"
proof (induction pat i prev s rule: finditer.induct)
  case (1 pat i prev)
  then show ?case by (auto simp: char_before_def split: option.splits)
next
  case (2 pat i prev c cs)
  show ?case
  proof (cases "match_here pat prev (c # cs)")
    case None
    with "2.prems" have "(p, m) \<in> set (finditer pat (Suc i) (Some c) cs)" by simp
    from "2.IH"(1) [OF None this]
    have ih: "Suc i \<le> p" "p - Suc i \<le> length cs"
      "match_here pat (char_before (Some c) cs (p - Suc i)) (drop (p - Suc i) cs) = Some m"
      by simp_all
    have "p - i = Suc (p - Suc i)" using ih(1) by simp
    then show ?thesis
      using ih by (simp add: char_before_Cons [of c cs _ prev])
  next
    case (Some m0)
    define n where "n = length (concat m0)"
    show ?thesis
    proof (cases "(p, m) = (i, m0)")
      case True
      then show ?thesis using Some by (simp add: char_before_def)
    next
      case False
      show ?thesis
      proof (cases "n = 0")
        case True
        have fi: "finditer pat i prev (c # cs) = (i, m0) # finditer pat (Suc i) (Some c) cs"
          using Some True by (auto simp: n_def Let_def)
        have "(p, m) \<in> set (finditer pat (Suc i) (Some c) cs)"
          using "2.prems" False unfolding fi by auto
        from "2.IH"(2) [OF Some n_def True this]
        have ih: "Suc i \<le> p" "p - Suc i \<le> length cs"
          "match_here pat (char_before (Some c) cs (p - Suc i)) (drop (p - Suc i) cs) = Some m"
          by simp_all
        have "p - i = Suc (p - Suc i)" using ih(1) by simp
        then show ?thesis
          using ih by (simp add: char_before_Cons [of c cs _ prev])
      next
        case nz: False
        have fi: "finditer pat i prev (c # cs)
            = (i, m0) # finditer pat (i + n) (Some ((c # cs) ! (n - 1))) (drop n (c # cs))"
          using Some nz by (auto simp: n_def Let_def)
        have "(p, m) \<in> set (finditer pat (i + n) (Some ((c # cs) ! (n - 1))) (drop n (c # cs)))"
          using "2.prems" False unfolding fi by auto
        note IH = "2.IH"(3) [OF Some n_def nz this]
        have ih: "i + n \<le> p" "p - (i + n) \<le> length (drop n (c # cs))"
          "match_here pat (char_before (Some ((c # cs) ! (n - 1))) (drop n (c # cs)) (p - (i + n)))
             (drop (p - (i + n)) (drop n (c # cs))) = Some m"
          by (rule IH [THEN conjunct1], rule IH [THEN conjunct2, THEN conjunct1],
              rule IH [THEN conjunct2, THEN conjunct2])
        have le: "n \<le> length (c # cs)"
          using match_here_length [OF Some] by (simp add: n_def)
        have pi: "n + (p - (i + n)) = p - i" using ih(1) by simp
        have cb: "char_before (Some ((c # cs) ! (n - 1))) (drop n (c # cs)) (p - (i + n))
            = char_before prev (c # cs) (n + (p - (i + n)))"
          using nz le by (intro char_before_drop) simp_all
        have dd: "drop (p - (i + n)) (drop n (c # cs)) = drop (n + (p - (i + n))) (c # cs)"
          by (simp add: add.commute)
        have "match_here pat (char_before prev (c # cs) (n + (p - (i + n))))
            (drop (n + (p - (i + n))) (c # cs)) = Some m"
          using ih(3) by (simp only: cb dd)
        then have "match_here pat (char_before prev (c # cs) (p - i)) (drop (p - i) (c # cs))
            = Some m"
          by (simp only: pi)
        moreover have "p - i \<le> length (c # cs)"
          using ih(1,2) le by simp
        moreover have "i \<le> p" using ih(1) by simp
        ultimately show ?thesis by blast
      qed
    qed
  qed
qed

lemma finditer_sorted: "sorted_wrt (<) (map fst (finditer pat i prev s))"
proof (induction pat i prev s rule: finditer.induct)
  case (1 pat i prev)
  then show ?case by (simp split: option.splits)
next
  case (2 pat i prev c cs)
  show ?case
  proof (cases "match_here pat prev (c # cs)")
    case None
    then show ?thesis using "2.IH"(1) by simp
  next
    case (Some m0)
    define n where "n = length (concat m0)"
    show ?thesis
    proof (cases "n = 0")
      case True
      have "i < p" if "(p, m) \<in> set (finditer pat (Suc i) (Some c) cs)" for p m
        using finditer_sound [OF that] by simp
      then show ?thesis
        using "2.IH"(2) [OF Some n_def True] Some True by (auto simp: n_def)
    next
      case False
      have "i < p"
        if "(p, m) \<in> set (finditer pat (i + n) (Some ((c # cs) ! (n - 1))) (drop n (c # cs)))"
        for p m
        using finditer_sound [OF that] False by simp
      then show ?thesis
        using "2.IH"(3) [OF Some n_def False] Some False by (auto simp: n_def Let_def)
    qed
  qed
qed

lemma finditer_complete:
  "match_here pat (char_before prev s k) (drop k s) = Some m \<Longrightarrow> k < length s \<Longrightarrow>
   concat m \<noteq> [] \<Longrightarrow>
   (i + k, m) \<in> set (finditer pat i prev s)
   \<or> (\<exists>(p, m') \<in> set (finditer pat i prev s). p < i + k \<and> i + k < p + length (concat m'))"
proof (induction pat i prev s arbitrary: k rule: finditer.induct)
  case (1 pat i prev)
  then show ?case by simp
next
  case (2 pat i prev c cs)
  show ?case
  proof (cases k)
    case 0
    with "2.prems" have "match_here pat prev (c # cs) = Some m"
      by (simp add: char_before_def)
    then show ?thesis
      using 0 "2.prems"(3) by (simp add: Let_def)
  next
    case (Suc k')
    have cb: "char_before (Some c) cs k' = char_before prev (c # cs) k"
      unfolding Suc by (rule char_before_Cons)
    have tail: "match_here pat (char_before (Some c) cs k') (drop k' cs) = Some m" "k' < length cs"
      using "2.prems" cb by (simp_all add: Suc)
    show ?thesis
    proof (cases "match_here pat prev (c # cs)")
      case None
      from "2.IH"(1) [OF None tail "2.prems"(3)]
      show ?thesis using None by (simp add: Suc)
    next
      case (Some m0)
      define n where "n = length (concat m0)"
      show ?thesis
      proof (cases "n = 0")
        case True
        from "2.IH"(2) [OF Some n_def True tail "2.prems"(3)]
        show ?thesis using Some True by (auto simp: Suc n_def)
      next
        case nz: False
        have fi: "finditer pat i prev (c # cs)
            = (i, m0) # finditer pat (i + n) (Some ((c # cs) ! (n - 1))) (drop n (c # cs))"
          using Some nz by (auto simp: n_def Let_def)
        show ?thesis
        proof (cases "k < n")
          case True
          then have "i < i + k \<and> i + k < i + length (concat m0)"
            using Suc by (simp add: n_def)
          then show ?thesis unfolding fi by auto
        next
          case False
          have le: "n \<le> length (c # cs)"
            using match_here_length [OF Some] by (simp add: n_def)
          have kn: "n + (k - n) = k" using False by simp
          have cb: "char_before (Some ((c # cs) ! (n - 1))) (drop n (c # cs)) (k - n)
              = char_before prev (c # cs) (n + (k - n))"
            using nz le by (intro char_before_drop) simp_all
          have dd: "drop (k - n) (drop n (c # cs)) = drop (n + (k - n)) (c # cs)"
            by (simp add: add.commute)
          have "match_here pat (char_before prev (c # cs) (n + (k - n)))
              (drop (n + (k - n)) (c # cs)) = Some m"
            using "2.prems"(1) by (simp only: kn)
          then have
            "match_here pat (char_before (Some ((c # cs) ! (n - 1))) (drop n (c # cs)) (k - n))
               (drop (k - n) (drop n (c # cs))) = Some m"
            by (simp only: cb dd)
          moreover have "k - n < length (drop n (c # cs))"
            using "2.prems"(2) False by simp
          ultimately have
            "(i + n + (k - n), m)
               \<in> set (finditer pat (i + n) (Some ((c # cs) ! (n - 1))) (drop n (c # cs)))
             \<or> (\<exists>(p, m') \<in> set (finditer pat (i + n) (Some ((c # cs) ! (n - 1)))
                     (drop n (c # cs))).
                  p < i + n + (k - n) \<and> i + n + (k - n) < p + length (concat m'))"
            using "2.IH"(3) [OF Some n_def nz _ _ "2.prems"(3)] by blast
          moreover have "i + n + (k - n) = i + k" using False by simp
          ultimately show ?thesis unfolding fi by auto
        qed
      qed
    qed
  qed
qed

section \<open>What the two patterns match\<close>

lemma takeWhile_not_chr:
  assumes "of_char c \<notin> set xs"
  shows "takeWhile (not_chr c) (xs @ of_char c # r) = xs"
    and "dropWhile (not_chr c) (xs @ of_char c # r) = of_char c # r"
proof -
  have all: "\<And>x. x \<in> set xs \<Longrightarrow> not_chr c x"
    using assms by (auto simp: not_chr_def)
  have "takeWhile (not_chr c) (xs @ of_char c # r) = xs @ takeWhile (not_chr c) (of_char c # r)"
    by (rule takeWhile_append2) (rule all)
  then show "takeWhile (not_chr c) (xs @ of_char c # r) = xs"
    by (simp add: not_chr_def)
  have "dropWhile (not_chr c) (xs @ of_char c # r) = dropWhile (not_chr c) (of_char c # r)"
    by (rule dropWhile_append2) (rule all)
  then show "dropWhile (not_chr c) (xs @ of_char c # r) = of_char c # r"
    by (simp add: not_chr_def)
qed

lemma match_here_not_chr_then_chr:
  "match_here (OneOrMore (not_chr c) # One (is_chr c) # pat) prev s =
    (if takeWhile (not_chr c) s = [] then None
     else case dropWhile (not_chr c) s of
            [] \<Rightarrow> None
          | d # ds \<Rightarrow> if is_chr c d
              then map_option (\<lambda>r. takeWhile (not_chr c) s # [d] # r) (match_here pat (Some d) ds)
              else None)"
  by (rule match_here_OneOrMore_One) (simp add: is_chr_def not_chr_def)

lemma md_match_intro:
  assumes "txt \<noteq> []" "of_char CHR '']'' \<notin> set txt"
    "target \<noteq> []" "of_char CHR '')'' \<notin> set target"
  shows "match_here md_pattern prev (py ''['' @ txt @ py '']('' @ target @ py '')'' @ post)
    = Some [py ''['', txt, py '']'', py ''('', target, py '')'']"
proof -
  have s: "py ''['' @ txt @ py '']('' @ target @ py '')'' @ post
      = of_char CHR ''['' # (txt @ of_char CHR '']'' # of_char CHR ''('' #
          (target @ of_char CHR '')'' # post))"
    by (simp add: py_def del: of_char_Char)
  have inner: "match_here [OneOrMore (not_chr CHR '')''), One (is_chr CHR '')'')] pv
      (target @ of_char CHR '')'' # post) = Some [target, [of_char CHR '')'']]" for pv
    using assms(3)
    by (simp add: match_here_not_chr_then_chr takeWhile_not_chr [OF assms(4)] is_chr_def
        del: of_char_Char match_here.simps(3))
  have outer: "match_here (OneOrMore (not_chr CHR '']'') # One (is_chr CHR '']'') #
      One (is_chr CHR ''('') # [OneOrMore (not_chr CHR '')''), One (is_chr CHR '')'')]) pv
      (txt @ of_char CHR '']'' # of_char CHR ''('' # (target @ of_char CHR '')'' # post))
      = Some [txt, [of_char CHR '']''], [of_char CHR ''(''], target, [of_char CHR '')'']]" for pv
    using assms(1)
    by (simp add: match_here_not_chr_then_chr [of "CHR '']''"] takeWhile_not_chr [OF assms(2)]
        is_chr_def inner del: of_char_Char match_here.simps(3))
  show ?thesis
    unfolding s md_pattern_def
    by (simp add: is_chr_def outer py_def del: of_char_Char match_here.simps(3))
qed

lemma md_match_empty_text:
  "match_here md_pattern prev (py ''[]'' @ rest) = None"
proof -
  have "match_here (OneOrMore (not_chr CHR '']'') # One (is_chr CHR '']'') # pat) pv
      (of_char CHR '']'' # rest) = None" for pat pv
    by (simp add: match_here_not_chr_then_chr not_chr_def
        del: of_char_Char match_here.simps(3))
  then show ?thesis
    unfolding md_pattern_def
    by (simp add: py_def is_chr_def del: of_char_Char match_here.simps(3))
qed

lemma md_match_empty_target:
  assumes "of_char CHR '']'' \<notin> set txt"
  shows "match_here md_pattern prev (py ''['' @ txt @ py '']()'' @ rest) = None"
proof -
  have s: "py ''['' @ txt @ py '']()'' @ rest
      = of_char CHR ''['' # (txt @ of_char CHR '']'' # of_char CHR ''('' #
          of_char CHR '')'' # rest)"
    by (simp add: py_def del: of_char_Char)
  have inner: "match_here [OneOrMore (not_chr CHR '')''), One (is_chr CHR '')'')] pv
      (of_char CHR '')'' # rest) = None" for pv
    by (simp add: match_here_not_chr_then_chr not_chr_def
        del: of_char_Char match_here.simps(3))
  have outer: "match_here (OneOrMore (not_chr CHR '']'') # One (is_chr CHR '']'') #
      One (is_chr CHR ''('') # [OneOrMore (not_chr CHR '')''), One (is_chr CHR '')'')]) pv
      (txt @ of_char CHR '']'' # of_char CHR ''('' # of_char CHR '')'' # rest) = None" for pv
    by (simp add: match_here_not_chr_then_chr [of "CHR '']''"] takeWhile_not_chr [OF assms]
        is_chr_def inner del: of_char_Char match_here.simps(3))
  show ?thesis
    unfolding s md_pattern_def
    by (simp add: is_chr_def outer del: of_char_Char match_here.simps(3))
qed

lemma bare_match_intro:
  assumes "prev \<noteq> Some (of_char CHR ''('')"
    "scheme = py ''http://'' \<or> scheme = py ''https://''"
    "body \<noteq> []" "\<forall>c \<in> set body. \<not> isspace c \<and> c \<noteq> of_char CHR '')''"
    "post = [] \<or> isspace (hd post) \<or> hd post = of_char CHR '')''"
  shows "\<exists>m. match_here bare_pattern prev (scheme @ body @ post) = Some m
    \<and> concat m = scheme @ body"
proof -
  let ?P = "\<lambda>c. \<not> isspace c \<and> not_chr CHR '')'' c"
  have all: "\<And>x. x \<in> set body \<Longrightarrow> ?P x"
    using assms(4) by (simp add: not_chr_def)
  have "takeWhile ?P (body @ post) = body @ takeWhile ?P post"
    by (rule takeWhile_append2) (rule all)
  moreover have "takeWhile ?P post = []"
    using assms(5) by (cases post) (auto simp: not_chr_def)
  ultimately have tw: "takeWhile ?P (body @ post) = body" by simp
  have last: "match_here [OneOrMore ?P] pv (body @ post) = Some [body]" for pv
    using assms(3) by (simp only: match_here_OneOrMore_end tw) simp
  have nb: "\<not> (case prev of None \<Rightarrow> False | Some c \<Rightarrow> is_chr CHR ''('' c)"
    using assms(1) by (auto simp: is_chr_def split: option.splits)
  from assms(2) show ?thesis
  proof
    assume sch: "scheme = py ''http://''"
    have "match_here bare_pattern prev (scheme @ body @ post)
        = Some [[], py ''h'', py ''t'', py ''t'', py ''p'', [], py '':'', py ''/'', py ''/'', body]"
      using nb last unfolding sch bare_pattern_def
      by (simp add: py_def is_chr_def del: match_here.simps(3))
    then show ?thesis by (simp add: sch py_def)
  next
    assume sch: "scheme = py ''https://''"
    have "match_here bare_pattern prev (scheme @ body @ post)
        = Some [[], py ''h'', py ''t'', py ''t'', py ''p'', py ''s'', py '':'', py ''/'', py ''/'',
                body]"
      using nb last unfolding sch bare_pattern_def
      by (simp add: py_def is_chr_def del: match_here.simps(3))
    then show ?thesis by (simp add: sch py_def)
  qed
qed

section \<open>Properties of extract_links\<close>

lemma markdown_loop_eq:
  "markdown_loop line_num ms links =
     links @ map (Pair line_num)
       (map snd (filter (\<lambda>(txt, url). startswith url (py ''http://'')
                                      \<or> startswith url (py ''https://'')) ms))"
proof (induction ms arbitrary: links)
  case Nil
  show ?case by simp
next
  case (Cons x ms)
  obtain t url where x: "x = (t, url)" by (cases x)
  show ?case
    by (cases "startswith url (py ''http://'') \<or> startswith url (py ''https://'')")
      (simp_all add: x Cons.IH)
qed

lemma bare_loop_eq: "bare_loop line_num urls links = links @ map (Pair line_num) urls"
  by (induction urls arbitrary: links) auto

lemma line_loop_eq:
  "line_loop els links = links @ concat (map (\<lambda>(line_num, line). line_links line_num line) els)"
  by (induction els arbitrary: links)
    (auto simp: line_links_def markdown_loop_eq bare_loop_eq)

lemma extract_links_eq:
  "fs markdown_file = Inr lines \<Longrightarrow>
   extract_links fs markdown_file
     = Inr (concat (map (\<lambda>(line_num, line). line_links line_num line) (enumerate1 lines)))"
  by (simp add: extract_links_def line_loop_eq)

lemma enumerate1_nth: "i < length xs \<Longrightarrow> enumerate1 xs ! i = (Suc i, xs ! i)"
  by (simp add: enumerate1_def del: upt_Suc)

lemma enumerate1_mem: "i < length xs \<Longrightarrow> (Suc i, xs ! i) \<in> set (enumerate1 xs)"
  using enumerate1_nth [of i xs] length_enumerate1 [of xs] by (metis nth_mem)

lemma fst_line_links: "x \<in> set (line_links n l) \<Longrightarrow> fst x = n"
  by (auto simp: line_links_def)

lemma sorted_const: "(\<And>x. x \<in> set xs \<Longrightarrow> x = a) \<Longrightarrow> sorted xs"
  by (induction xs) auto

lemma sorted_enum_links:
  "sorted (map fst (concat (map (\<lambda>(n, l). line_links n l) (zip [a..<b] ls))))"
proof (induction ls arbitrary: a)
  case Nil
  show ?case by simp
next
  case (Cons l ls)
  show ?case
  proof (cases "a < b")
    case False
    then show ?thesis by simp
  next
    case True
    then have z: "zip [a..<b] (l # ls) = (a, l) # zip [Suc a..<b] ls"
      by (simp add: upt_conv_Cons)
    have later: "a \<le> y"
      if "y \<in> set (map fst (concat (map (\<lambda>(n, l). line_links n l) (zip [Suc a..<b] ls))))"
      for y
    proof -
      from that obtain n l' v where "(n, l') \<in> set (zip [Suc a..<b] ls)"
        "(y, v) \<in> set (line_links n l')"
        by auto
      then have "Suc a \<le> n" "y = n"
        by (auto dest: set_zip_leftD fst_line_links)
      then show ?thesis by simp
    qed
    have first: "x = a" if "x \<in> set (map fst (line_links a l))" for x
      using that by (auto dest: fst_line_links)
    have s1: "sorted (map fst (line_links a l))"
      by (rule sorted_const [of _ a]) (rule first)
    have "map fst (concat (map (\<lambda>(n, l). line_links n l) (zip [a..<b] (l # ls))))
        = map fst (line_links a l)
          @ map fst (concat (map (\<lambda>(n, l). line_links n l) (zip [Suc a..<b] ls)))"
      unfolding z by simp
    moreover have "sorted (map fst (line_links a l)
          @ map fst (concat (map (\<lambda>(n, l). line_links n l) (zip [Suc a..<b] ls))))"
      unfolding sorted_append using Cons.IH [of "Suc a"] s1 first later by blast
    ultimately show ?thesis by simp
  qed
qed

lemma match_at_index:
  assumes "(i, m) \<in> set (finditer pat 0 None line)"
  shows "take (length (concat m)) (drop i line) = concat m"
  using finditer_sound [OF assms] match_here_prefix by auto

text \<open>
  C5 (as amended). The links are ordered by line, from the first line to the last (line
  \<open>i\<close>, counted from 0, carries the number \<open>i + 1\<close>). Within one line the targets of the
  markdown matches come first, in the order of their matches from left to right, and the
  bare URLs follow, in the order of their matches from left to right; every match stands in
  the line at the index the scan reports for it. Nothing is removed: an URL found twice is
  listed twice.
\<close>

theorem extract_links_order:
  "fs markdown_file = Inr lines \<Longrightarrow>
   extract_links fs markdown_file
     = Inr (concat (map (\<lambda>(line_num, line). line_links line_num line) (enumerate1 lines)))
   \<and> (\<forall>i < length lines. enumerate1 lines ! i = (Suc i, lines ! i))
   \<and> (\<forall>line. sorted_wrt (<) (map fst (md_matches line))
          \<and> sorted_wrt (<) (map fst (bare_matches line)))
   \<and> (\<forall>line i m. (i, m) \<in> set (md_matches line) \<union> set (bare_matches line)
          \<longrightarrow> take (length (concat m)) (drop i line) = concat m)"
  by (auto simp: extract_links_eq enumerate1_nth md_matches_def bare_matches_def
      finditer_sorted match_at_index)

theorem extract_links_order_witness:
  "readme sample_doc (py ''README.md'') = Inr sample_doc
   \<and> extract_links (readme sample_doc) (py ''README.md'')
       = Inr (line_links 1 (sample_doc ! 0) @ line_links 2 (sample_doc ! 1)
              @ line_links 3 (sample_doc ! 2))
   \<and> line_links 1 (sample_doc ! 0) = []
   \<and> line_links 2 (sample_doc ! 1)
       = [(2, py ''https://good.example/page''), (2, py ''https://good.example/page'')]
   \<and> line_links 3 (sample_doc ! 2) = [(3, py ''https://good.example/page'')]"
proof -
  have h: "readme sample_doc (py ''README.md'') = Inr sample_doc"
    by (simp add: readme_def)
  have e: "enumerate1 sample_doc
      = [(1, sample_doc ! 0), (2, sample_doc ! 1), (3, sample_doc ! 2)]"
    by (simp add: enumerate1_def sample_doc_def)
  have l1: "line_links 1 (sample_doc ! 0) = []"
    by (simp add: line_links_def sample_doc_def pattern_defs)
  have l2: "line_links 2 (sample_doc ! 1)
      = [(2, py ''https://good.example/page''), (2, py ''https://good.example/page'')]"
    by (simp add: line_links_def sample_doc_def pattern_defs)
  have l3: "line_links 3 (sample_doc ! 2) = [(3, py ''https://good.example/page'')]"
    by (simp add: line_links_def sample_doc_def pattern_defs)
  show ?thesis
    using extract_links_order [of "readme sample_doc" "py ''README.md''" sample_doc, OF h]
      h l1 l2 l3
    by (simp add: e)
qed

text \<open>
  C5 fails as stated: in a line with a bare URL at index 0 and a markdown link at index 18,
  the target of the markdown link is listed before the bare URL.
\<close>

theorem extract_links_order_counterexample:
  "extract_links (readme mixed_doc) (py ''README.md'')
     = Inr [(1, py ''https://b.example''), (1, py ''https://a.example'')]
   \<and> map fst (bare_matches (hd mixed_doc)) = [0]
   \<and> map fst (md_matches (hd mixed_doc)) = [18]"
  by (simp add: extract_links_mixed_doc md_matches_mixed bare_matches_mixed)

text \<open>
  C8. The line numbers of the links that \<open>extract_links\<close> returns never decrease from one
  entry to the next.
\<close>

theorem extract_links_line_numbers_sorted:
  "extract_links fs markdown_file = Inr links \<Longrightarrow> sorted (map fst links)"
proof (cases "fs markdown_file")
  case (Inl e)
  assume "extract_links fs markdown_file = Inr links"
  then show ?thesis using Inl by (simp add: extract_links_def)
next
  case (Inr lines)
  assume "extract_links fs markdown_file = Inr links"
  then have "links = concat (map (\<lambda>(n, l). line_links n l) (zip [1..<Suc (length lines)] lines))"
    using extract_links_eq [of fs markdown_file lines, OF Inr]
    by (simp add: enumerate1_def del: upt_Suc)
  then show ?thesis
    using sorted_enum_links [of 1 "Suc (length lines)" lines] by simp
qed

theorem extract_links_line_numbers_sorted_witness:
  "extract_links (readme sample_doc) (py ''README.md'')
     = Inr [(2, py ''https://good.example/page''), (2, py ''https://good.example/page''),
            (3, py ''https://good.example/page'')]
   \<and> sorted (map fst [(2 :: nat, py ''https://good.example/page''),
                       (2, py ''https://good.example/page''),
                       (3, py ''https://good.example/page'')])"
  using extract_links_line_numbers_sorted [OF extract_links_sample_doc]
    extract_links_sample_doc
  by simp

end
